theory Spec2Isabelle
  imports Main "HOL-Library.Word"
begin

unbundle bit_operations_syntax

section \<open>Data model of kernel/locking/rwsem.h\<close>

text \<open>
  The header reads one field of a task, \<open>prio\<close> (a C \<open>int\<close>; a smaller value is a more
  urgent task).
\<close>

record task_struct =
  prio :: int

text \<open>
  A waiter embeds a \<open>struct list_head list\<close> and points to its task. The embedded node
  is what the wait list links and what the code compares by address
  (\<open>&waiter_in->list == head->next\<close>), so \<open>list_node\<close> is the address of that node.
  \<open>task\<close> is the task the waiter's pointer leads to.
\<close>

record rwsem_waiter =
  list_node :: nat
  task :: task_struct

text \<open>
  The semaphore: \<open>owner\<close> is the pointer-sized owner word, \<open>wait_list\<close> the entries
  linked on \<open>sem->wait_list\<close> read from \<open>head->next\<close> round to \<open>head\<close>, and
  \<open>m_count\<close> the counter of queue jumps. The jump counter is only incremented below
  \<open>RWSEM_MAX_PREEMPT_ALLOWED\<close>, so it cannot overflow and is an \<open>int\<close>.
\<close>

record rw_semaphore =
  owner :: "64 word"
  wait_list :: "rwsem_waiter list"
  m_count :: int

definition RWSEM_MAX_PREEMPT_ALLOWED :: int where
  "RWSEM_MAX_PREEMPT_ALLOWED = 3000"

section \<open>The list primitives the header calls\<close>

text \<open>
  Modelled from the spec: \<open>list_empty\<close>, \<open>list_add_tail\<close> and \<open>list_add\<close> come from
  \<open>linux/list.h\<close>, which this header uses and does not define. The spec describes them as
  "list is empty", "append waiter to the tail" and "splice waiter immediately before" an
  entry. The circular list is the sequence of its entries; a cursor \<open>pos\<close> of
  \<open>list_for_each\<close> splits it into the entries up to \<open>pos->prev\<close> and the entries from
  \<open>pos\<close> on, and \<open>list_add new pos->prev\<close> links \<open>new\<close> between the two.
\<close>

definition list_empty :: "'a list \<Rightarrow> bool" where
  "list_empty head = (head = [])"

definition list_add_tail :: "'a \<Rightarrow> 'a list \<Rightarrow> 'a list" where
  "list_add_tail new head = head @ [new]"

definition list_add :: "'a \<Rightarrow> 'a list \<Rightarrow> 'a list \<Rightarrow> 'a list" where
  "list_add new upto_prev from_pos = upto_prev @ new # from_pos"

section \<open>Wait-queue admission\<close>

text \<open>
  The \<open>list_for_each\<close> loop of the priority-aware \<open>rwsem_list_add_per_prio\<close>. The second
  argument holds the entries already passed, the third the entries from \<open>pos\<close> on. At the
  first entry with \<open>waiter->task->prio > waiter_in->task->prio\<close> the loop links the new
  waiter before it, increments \<open>m_count\<close> and returns whether the new node is
  \<open>head->next\<close>. \<open>None\<close> is the loop running off the end of the list.
\<close>

fun prio_scan ::
  "rwsem_waiter \<Rightarrow> rw_semaphore \<Rightarrow> rwsem_waiter list \<Rightarrow> rwsem_waiter list
    \<Rightarrow> (bool \<times> rw_semaphore) option" where
  "prio_scan waiter_in sem passed [] = None"
| "prio_scan waiter_in sem passed (waiter # rest) =
     (if prio (task waiter) > prio (task waiter_in) then
        (let l = list_add waiter_in passed (waiter # rest) in
         Some (list_node waiter_in = list_node (hd l),
               sem\<lparr>wait_list := l, m_count := m_count sem + 1\<rparr>))
      else prio_scan waiter_in sem (passed @ [waiter]) rest)"

text \<open>
  \<open>rwsem_list_add_per_prio\<close>, both variants. The first argument is the build option
  \<open>CONFIG_RWSEM_PRIO_AWARE\<close>; \<open>DEFAULT_PRIO\<close> is a constant of the scheduler headers and
  is taken as a parameter. The result is the returned boolean and the semaphore after
  the call.
\<close>

definition rwsem_list_add_per_prio ::
  "bool \<Rightarrow> int \<Rightarrow> rwsem_waiter \<Rightarrow> rw_semaphore \<Rightarrow> bool \<times> rw_semaphore" where
  "rwsem_list_add_per_prio CONFIG_RWSEM_PRIO_AWARE DEFAULT_PRIO waiter_in sem =
     (if CONFIG_RWSEM_PRIO_AWARE then
        (if list_empty (wait_list sem) then
           (True, sem\<lparr>wait_list := list_add_tail waiter_in (wait_list sem), m_count := 0\<rparr>)
         else
           (case (if prio (task waiter_in) < DEFAULT_PRIO
                     \<and> m_count sem < RWSEM_MAX_PREEMPT_ALLOWED
                  then prio_scan waiter_in sem [] (wait_list sem) else None) of
              Some r \<Rightarrow> r
            | None \<Rightarrow>
                (False, sem\<lparr>wait_list := list_add_tail waiter_in (wait_list sem)\<rparr>)))
      else
        (False, sem\<lparr>wait_list := list_add_tail waiter_in (wait_list sem)\<rparr>))"

text \<open>
  A caller that queues the waiters \<open>ws\<close> one after the other, each call working on the
  semaphore the previous one left.
\<close>

fun insert_all :: "bool \<Rightarrow> int \<Rightarrow> rwsem_waiter list \<Rightarrow> rw_semaphore \<Rightarrow> rw_semaphore" where
  "insert_all cfg DEFAULT_PRIO [] sem = sem"
| "insert_all cfg DEFAULT_PRIO (w # ws) sem =
     insert_all cfg DEFAULT_PRIO ws (snd (rwsem_list_add_per_prio cfg DEFAULT_PRIO w sem))"

text \<open>
  \<open>first_entry w l\<close>: the node of \<open>w\<close> is \<open>head->next\<close> of the list \<open>l\<close>.
\<close>

fun first_entry :: "rwsem_waiter \<Rightarrow> rwsem_waiter list \<Rightarrow> bool" where
  "first_entry w [] = False"
| "first_entry w (x # xs) = (list_node x = list_node w)"

text \<open>
  \<open>elevated_sorted d l\<close>: no entry of \<open>l\<close> with a priority value below \<open>d\<close> has a less
  urgent entry ahead of it. It is the invariant behind the ordering results.
\<close>

fun elevated_sorted :: "int \<Rightarrow> rwsem_waiter list \<Rightarrow> bool" where
  "elevated_sorted d [] = True"
| "elevated_sorted d (a # l) =
     ((\<forall>e\<in>set l. prio (task e) < d \<longrightarrow> prio (task a) \<le> prio (task e))
      \<and> elevated_sorted d l)"

section \<open>Owner registry\<close>

text \<open>
  The accesses a function makes to \<open>sem->owner\<close>, in program order: \<open>READ_ONCE\<close> is a
  load, \<open>WRITE_ONCE v\<close> a store of \<open>v\<close>.
\<close>

datatype owner_access = READ_ONCE | WRITE_ONCE "64 word"

fun stores :: "owner_access list \<Rightarrow> nat" where
  "stores [] = 0"
| "stores (READ_ONCE # t) = stores t"
| "stores (WRITE_ONCE v # t) = Suc (stores t)"

text \<open>
  The three publishing functions. The first argument is the build option
  \<open>CONFIG_RWSEM_SPIN_ON_OWNER\<close>: without it the bodies are empty. \<open>current\<close> (the pointer
  to the running task) and the macro \<open>RWSEM_READER_OWNED\<close> are defined outside this
  header and are parameters. Each function returns the semaphore and its accesses to
  the owner word.
\<close>

definition rwsem_set_owner ::
  "bool \<Rightarrow> 64 word \<Rightarrow> rw_semaphore \<Rightarrow> rw_semaphore \<times> owner_access list" where
  "rwsem_set_owner CONFIG_RWSEM_SPIN_ON_OWNER current sem =
     (if CONFIG_RWSEM_SPIN_ON_OWNER then (sem\<lparr>owner := current\<rparr>, [WRITE_ONCE current])
      else (sem, []))"

definition rwsem_clear_owner ::
  "bool \<Rightarrow> rw_semaphore \<Rightarrow> rw_semaphore \<times> owner_access list" where
  "rwsem_clear_owner CONFIG_RWSEM_SPIN_ON_OWNER sem =
     (if CONFIG_RWSEM_SPIN_ON_OWNER then (sem\<lparr>owner := 0\<rparr>, [WRITE_ONCE 0])
      else (sem, []))"

definition rwsem_set_reader_owned ::
  "bool \<Rightarrow> 64 word \<Rightarrow> rw_semaphore \<Rightarrow> rw_semaphore \<times> owner_access list" where
  "rwsem_set_reader_owned CONFIG_RWSEM_SPIN_ON_OWNER RWSEM_READER_OWNED sem =
     (if CONFIG_RWSEM_SPIN_ON_OWNER then
        (if owner sem \<noteq> RWSEM_READER_OWNED
         then (sem\<lparr>owner := RWSEM_READER_OWNED\<rparr>, [READ_ONCE, WRITE_ONCE RWSEM_READER_OWNED])
         else (sem, [READ_ONCE]))
      else (sem, []))"

text \<open>
  The two predicates on an owner value, present only with
  \<open>CONFIG_RWSEM_SPIN_ON_OWNER\<close>. The mask \<open>RWSEM_ANONYMOUSLY_OWNED\<close> is defined outside
  this header and is a parameter. C reads a non-zero word as true.
\<close>

definition is_rwsem_owner_spinnable :: "64 word \<Rightarrow> 64 word \<Rightarrow> bool" where
  "is_rwsem_owner_spinnable RWSEM_ANONYMOUSLY_OWNED own =
     (\<not> (own AND RWSEM_ANONYMOUSLY_OWNED \<noteq> 0))"

definition rwsem_has_anonymous_owner :: "64 word \<Rightarrow> 64 word \<Rightarrow> bool" where
  "rwsem_has_anonymous_owner RWSEM_ANONYMOUSLY_OWNED own =
     (own AND RWSEM_ANONYMOUSLY_OWNED \<noteq> 0)"

text \<open>
  \<open>n\<close> calls of \<open>rwsem_set_reader_owned\<close> in a row, with the accesses of all of them.
\<close>

fun set_reader_owned_n ::
  "bool \<Rightarrow> 64 word \<Rightarrow> nat \<Rightarrow> rw_semaphore \<Rightarrow> rw_semaphore \<times> owner_access list" where
  "set_reader_owned_n c r 0 sem = (sem, [])"
| "set_reader_owned_n c r (Suc n) sem =
     (let (s1, t1) = rwsem_set_reader_owned c r sem;
          (s2, t2) = set_reader_owned_n c r n s1
      in (s2, t1 @ t2))"

section \<open>Evaluation of concrete calls\<close>

lemmas eval_defs = rwsem_list_add_per_prio_def list_empty_def list_add_tail_def list_add_def
  RWSEM_MAX_PREEMPT_ALLOWED_def

section \<open>The scan as a split of the list\<close>

text \<open>
  The loop stops at the first entry that is strictly less urgent than the new waiter:
  the entries passed are \<open>takeWhile\<close> of "at least as urgent", the entries from the
  cursor on are \<open>dropWhile\<close> of it.
\<close>

lemma prio_scan_split:
  "prio_scan w sem passed l =
     (if dropWhile (\<lambda>x. prio (task x) \<le> prio (task w)) l = [] then None
      else
        (let l' = passed @ takeWhile (\<lambda>x. prio (task x) \<le> prio (task w)) l
                    @ w # dropWhile (\<lambda>x. prio (task x) \<le> prio (task w)) l in
         Some (list_node w = list_node (hd l'),
               sem\<lparr>wait_list := l', m_count := m_count sem + 1\<rparr>)))"
proof (induction l arbitrary: passed)
  case Nil
  show ?case by simp
next
  case (Cons a l)
  show ?case
  proof (cases "prio (task a) \<le> prio (task w)")
    case True
    then show ?thesis using Cons.IH [of "passed @ [a]"] by simp
  next
    case False
    then show ?thesis by (simp add: list_add_def)
  qed
qed

lemma prio_aware_insert:
  "rwsem_list_add_per_prio True d w sem =
     (if wait_list sem = [] then (True, sem\<lparr>wait_list := [w], m_count := 0\<rparr>)
      else if prio (task w) < d \<and> m_count sem < RWSEM_MAX_PREEMPT_ALLOWED
              \<and> dropWhile (\<lambda>x. prio (task x) \<le> prio (task w)) (wait_list sem) \<noteq> []
      then (list_node w =
              list_node (hd (takeWhile (\<lambda>x. prio (task x) \<le> prio (task w)) (wait_list sem)
                             @ [w])),
            sem\<lparr>wait_list :=
                  takeWhile (\<lambda>x. prio (task x) \<le> prio (task w)) (wait_list sem)
                    @ w # dropWhile (\<lambda>x. prio (task x) \<le> prio (task w)) (wait_list sem),
                m_count := m_count sem + 1\<rparr>)
      else (False, sem\<lparr>wait_list := wait_list sem @ [w]\<rparr>))"
  by (simp add: rwsem_list_add_per_prio_def list_empty_def list_add_tail_def
      prio_scan_split Let_def hd_append)

lemma fifo_only_insert:
  "rwsem_list_add_per_prio False d w sem = (False, sem\<lparr>wait_list := wait_list sem @ [w]\<rparr>)"
  by (simp add: rwsem_list_add_per_prio_def list_add_tail_def)

lemma prio_aware_tail:
  assumes "wait_list sem \<noteq> []"
    and "\<not> (prio (task w) < d \<and> m_count sem < RWSEM_MAX_PREEMPT_ALLOWED
            \<and> dropWhile (\<lambda>x. prio (task x) \<le> prio (task w)) (wait_list sem) \<noteq> [])"
  shows "rwsem_list_add_per_prio True d w sem
         = (False, sem\<lparr>wait_list := wait_list sem @ [w]\<rparr>)"
  using assms by (simp only: prio_aware_insert if_False)

lemma prio_aware_splice:
  assumes "wait_list sem \<noteq> []"
    and "prio (task w) < d" and "m_count sem < RWSEM_MAX_PREEMPT_ALLOWED"
    and "dropWhile (\<lambda>x. prio (task x) \<le> prio (task w)) (wait_list sem) \<noteq> []"
  shows "snd (rwsem_list_add_per_prio True d w sem)
         = sem\<lparr>wait_list :=
                  takeWhile (\<lambda>x. prio (task x) \<le> prio (task w)) (wait_list sem)
                    @ w # dropWhile (\<lambda>x. prio (task x) \<le> prio (task w)) (wait_list sem),
                m_count := m_count sem + 1\<rparr>"
  using assms by (simp add: prio_aware_insert)

lemma fifo_insert_all:
  "insert_all False d ws sem = sem\<lparr>wait_list := wait_list sem @ ws\<rparr>"
  by (induction ws arbitrary: sem) (simp_all add: fifo_only_insert)

lemma dropWhile_split:
  "dropWhile P l \<noteq> [] \<Longrightarrow>
   l = takeWhile P l @ hd (dropWhile P l) # tl (dropWhile P l) \<and> \<not> P (hd (dropWhile P l))"
  by (metis hd_dropWhile list.collapse takeWhile_dropWhile_id)

section \<open>The returned boolean\<close>

lemma hd_takeWhile_fresh:
  assumes "list_node w \<notin> list_node ` set l" and "takeWhile P l \<noteq> []"
  shows "list_node w \<noteq> list_node (hd (takeWhile P l))"
proof -
  from assms(2) have "hd (takeWhile P l) \<in> set (takeWhile P l)" by simp
  then have "hd (takeWhile P l) \<in> set l" by (rule set_takeWhileD [THEN conjunct1])
  with assms(1) show ?thesis by auto
qed

lemma first_entry_append:
  "l \<noteq> [] \<Longrightarrow> first_entry w (l @ r) = first_entry w l"
  by (cases l) simp_all

lemma first_entry_fresh:
  "list_node w \<notin> list_node ` set l \<Longrightarrow> \<not> first_entry w l"
  by (cases l) auto

lemma takeWhile_fresh:
  "list_node w \<notin> list_node ` set l \<Longrightarrow> list_node w \<notin> list_node ` set (takeWhile P l)"
  by (auto dest: set_takeWhileD)

lemma prio_aware_front:
  assumes "list_node w \<notin> list_node ` set (wait_list sem)"
  shows "fst (rwsem_list_add_per_prio True d w sem)
         = first_entry w (wait_list (snd (rwsem_list_add_per_prio True d w sem)))"
proof (cases "wait_list sem = []")
  case True
  then show ?thesis by (simp add: prio_aware_insert)
next
  case ne: False
  let ?P = "\<lambda>x. prio (task x) \<le> prio (task w)"
  show ?thesis
  proof (cases "prio (task w) < d \<and> m_count sem < RWSEM_MAX_PREEMPT_ALLOWED
                  \<and> dropWhile ?P (wait_list sem) \<noteq> []")
    case scan: True
    show ?thesis
    proof (cases "takeWhile ?P (wait_list sem) = []")
      case True
      with ne scan show ?thesis by (simp add: prio_aware_insert)
    next
      case False
      with ne scan assms hd_takeWhile_fresh [OF assms False] takeWhile_fresh [OF assms, of ?P]
      show ?thesis
        by (simp add: prio_aware_insert first_entry_append first_entry_fresh hd_append)
    qed
  next
    case False
    with ne assms show ?thesis
      by (auto simp add: prio_aware_insert first_entry_append first_entry_fresh)
  qed
qed

text \<open>
  C1, as amended. For a waiter whose node is not yet linked into the list: under the
  priority-aware configuration the returned boolean is true if and only if the waiter
  is the first entry of the wait list right after the call. Under the FIFO-only
  configuration the call returns false for every list, so the boolean is true exactly
  when the configuration is priority-aware and the waiter is first; there the waiter
  is first exactly when the list was empty before the call.
\<close>

theorem inserted_at_front_iff:
  assumes "list_node w \<notin> list_node ` set (wait_list sem)"
  shows "(fst (rwsem_list_add_per_prio cfg d w sem)
          \<longleftrightarrow> cfg \<and> first_entry w (wait_list (snd (rwsem_list_add_per_prio cfg d w sem))))
       \<and> (\<not> cfg \<longrightarrow>
            (first_entry w (wait_list (snd (rwsem_list_add_per_prio cfg d w sem)))
             \<longleftrightarrow> wait_list sem = []))"
proof (cases cfg)
  case True
  then show ?thesis using prio_aware_front [OF assms, of d] by simp
next
  case False
  show ?thesis
  proof (cases "wait_list sem = []")
    case True
    with False show ?thesis by (simp add: fifo_only_insert)
  next
    case ne: False
    with False assms show ?thesis
      by (simp add: fifo_only_insert first_entry_append first_entry_fresh)
  qed
qed

text \<open>
  A witness for C1: a waiter of priority 100 that is not linked yet, queued behind one
  waiter of priority 120. The priority-aware call returns true and the waiter is first;
  the FIFO-only call returns false and the waiter is not first.
\<close>

theorem inserted_at_front_iff_witness:
  "list_node \<lparr>list_node = 128, task = \<lparr>prio = 100\<rparr>\<rparr>
     \<notin> list_node ` set (wait_list \<lparr>owner = 0,
           wait_list = [\<lparr>list_node = 64, task = \<lparr>prio = 120\<rparr>\<rparr>], m_count = 0\<rparr>)
   \<and> fst (rwsem_list_add_per_prio True 120 \<lparr>list_node = 128, task = \<lparr>prio = 100\<rparr>\<rparr>
          \<lparr>owner = 0, wait_list = [\<lparr>list_node = 64, task = \<lparr>prio = 120\<rparr>\<rparr>], m_count = 0\<rparr>)
   \<and> first_entry \<lparr>list_node = 128, task = \<lparr>prio = 100\<rparr>\<rparr>
         (wait_list (snd (rwsem_list_add_per_prio True 120
            \<lparr>list_node = 128, task = \<lparr>prio = 100\<rparr>\<rparr>
            \<lparr>owner = 0, wait_list = [\<lparr>list_node = 64, task = \<lparr>prio = 120\<rparr>\<rparr>],
               m_count = 0\<rparr>)))
   \<and> \<not> fst (rwsem_list_add_per_prio False 120 \<lparr>list_node = 128, task = \<lparr>prio = 100\<rparr>\<rparr>
          \<lparr>owner = 0, wait_list = [\<lparr>list_node = 64, task = \<lparr>prio = 120\<rparr>\<rparr>], m_count = 0\<rparr>)
   \<and> \<not> first_entry \<lparr>list_node = 128, task = \<lparr>prio = 100\<rparr>\<rparr>
         (wait_list (snd (rwsem_list_add_per_prio False 120
            \<lparr>list_node = 128, task = \<lparr>prio = 100\<rparr>\<rparr>
            \<lparr>owner = 0, wait_list = [\<lparr>list_node = 64, task = \<lparr>prio = 120\<rparr>\<rparr>],
               m_count = 0\<rparr>)))"
proof -
  let ?w = "\<lparr>list_node = 128, task = \<lparr>prio = 100\<rparr>\<rparr>"
  let ?s = "\<lparr>owner = 0, wait_list = [\<lparr>list_node = 64, task = \<lparr>prio = 120\<rparr>\<rparr>], m_count = 0\<rparr>"
  have fresh: "list_node ?w \<notin> list_node ` set (wait_list ?s)" by simp
  have t: "fst (rwsem_list_add_per_prio True 120 ?w ?s)" by (simp add: eval_defs)
  have f: "wait_list ?s \<noteq> []" by simp
  from inserted_at_front_iff [OF fresh, of True 120] inserted_at_front_iff [OF fresh, of False 120]
    fresh t f
  show ?thesis by simp
qed

text \<open>
  C1 as stated fails under the FIFO-only configuration: inserted into an empty list
  the waiter is the first entry, and the call returns false.
\<close>

theorem fifo_front_not_reported:
  "\<not> (fst (rwsem_list_add_per_prio False 120 \<lparr>list_node = 64, task = \<lparr>prio = 120\<rparr>\<rparr>
              \<lparr>owner = 0, wait_list = [], m_count = 0\<rparr>)
       \<longleftrightarrow> first_entry \<lparr>list_node = 64, task = \<lparr>prio = 120\<rparr>\<rparr>
             (wait_list (snd (rwsem_list_add_per_prio False 120
                \<lparr>list_node = 64, task = \<lparr>prio = 120\<rparr>\<rparr>
                \<lparr>owner = 0, wait_list = [], m_count = 0\<rparr>))))"
  by (simp add: eval_defs)

section \<open>The FIFO-only variant\<close>

text \<open>
  C2, as amended. Under the FIFO-only policy the call appends the waiter to the tail of
  the wait list and returns false, for every list, empty or not.
\<close>

theorem fifo_appends_and_returns_false:
  "rwsem_list_add_per_prio False DEFAULT_PRIO waiter_in sem
     = (False, sem\<lparr>wait_list := wait_list sem @ [waiter_in]\<rparr>)"
  by (rule fifo_only_insert)

text \<open>
  A witness for C2: the FIFO-only call on a list of one entry.
\<close>

theorem fifo_appends_and_returns_false_witness:
  "rwsem_list_add_per_prio False 120 \<lparr>list_node = 128, task = \<lparr>prio = 100\<rparr>\<rparr>
     \<lparr>owner = 0, wait_list = [\<lparr>list_node = 64, task = \<lparr>prio = 120\<rparr>\<rparr>], m_count = 0\<rparr>
   = (False, \<lparr>owner = 0,
              wait_list = [\<lparr>list_node = 64, task = \<lparr>prio = 120\<rparr>\<rparr>,
                           \<lparr>list_node = 128, task = \<lparr>prio = 100\<rparr>\<rparr>],
              m_count = 0\<rparr>)"
  using fifo_appends_and_returns_false
    [of 120 "\<lparr>list_node = 128, task = \<lparr>prio = 100\<rparr>\<rparr>"
        "\<lparr>owner = 0, wait_list = [\<lparr>list_node = 64, task = \<lparr>prio = 120\<rparr>\<rparr>], m_count = 0\<rparr>"]
  by simp

text \<open>
  C2 as stated fails on the empty list: the list was empty before the call, and the
  FIFO-only call returns false.
\<close>

theorem fifo_empty_returns_false:
  "wait_list \<lparr>owner = 0, wait_list = [], m_count = 0\<rparr> = []
   \<and> \<not> fst (rwsem_list_add_per_prio False 120 \<lparr>list_node = 64, task = \<lparr>prio = 100\<rparr>\<rparr>
            \<lparr>owner = 0, wait_list = [], m_count = 0\<rparr>)"
  by (simp add: eval_defs)

text \<open>
  C10. Under the FIFO-only policy the call neither modifies nor reads the preempt
  budget: the field \<open>m_count\<close> is the same after the call as before, for every list,
  and a call on a semaphore with another budget returns the same boolean and the same
  semaphore but for that budget.
\<close>

theorem fifo_budget_untouched:
  "m_count (snd (rwsem_list_add_per_prio False DEFAULT_PRIO waiter_in sem)) = m_count sem \<and>
   rwsem_list_add_per_prio False DEFAULT_PRIO waiter_in (sem\<lparr>m_count := b\<rparr>)
     = (fst (rwsem_list_add_per_prio False DEFAULT_PRIO waiter_in sem),
        (snd (rwsem_list_add_per_prio False DEFAULT_PRIO waiter_in sem))\<lparr>m_count := b\<rparr>)"
  by (simp add: fifo_only_insert)

text \<open>
  A witness for C10: the FIFO-only call on the empty list with budget 2999.
\<close>

theorem fifo_budget_untouched_witness:
  "m_count (snd (rwsem_list_add_per_prio False 120 \<lparr>list_node = 64, task = \<lparr>prio = 100\<rparr>\<rparr>
      \<lparr>owner = 0, wait_list = [], m_count = 2999\<rparr>)) = 2999"
  using fifo_budget_untouched
    [of 120 "\<lparr>list_node = 64, task = \<lparr>prio = 100\<rparr>\<rparr>"
        "\<lparr>owner = 0, wait_list = [], m_count = 2999\<rparr>" 0]
  by simp

section \<open>The priority-aware variant\<close>

text \<open>
  C3. Under the priority-aware policy, for a waiter that is strictly more urgent than
  \<open>DEFAULT_PRIO\<close>, not linked yet, and a non-empty list with the budget strictly below
  the cap: with \<open>ahead\<close> the entries before the first entry that is strictly less urgent
  than the waiter and \<open>behind\<close> the entries from that one on, the call links the
  waiter between \<open>ahead\<close> and \<open>behind\<close>, adds exactly 1 to the budget and returns
  whether \<open>ahead\<close> is empty, that is whether the waiter went in before the original
  head. When no entry is strictly less urgent the waiter is appended at the tail and
  the call returns false, with the budget as it was.
\<close>

theorem prio_insert_scan:
  assumes "wait_list sem \<noteq> []"
    and "prio (task waiter_in) < DEFAULT_PRIO"
    and "m_count sem < RWSEM_MAX_PREEMPT_ALLOWED"
    and "list_node waiter_in \<notin> list_node ` set (wait_list sem)"
  shows "rwsem_list_add_per_prio True DEFAULT_PRIO waiter_in sem =
     (let ahead = takeWhile (\<lambda>x. \<not> prio (task x) > prio (task waiter_in)) (wait_list sem);
          behind = dropWhile (\<lambda>x. \<not> prio (task x) > prio (task waiter_in)) (wait_list sem)
      in if behind = [] then (False, sem\<lparr>wait_list := wait_list sem @ [waiter_in]\<rparr>)
         else (ahead = [],
               sem\<lparr>wait_list := ahead @ waiter_in # behind, m_count := m_count sem + 1\<rparr>))"
proof -
  let ?P = "\<lambda>x. prio (task x) \<le> prio (task waiter_in)"
  have P: "(\<lambda>x. \<not> prio (task x) > prio (task waiter_in)) = ?P"
    by (simp add: not_less)
  show ?thesis
  proof (cases "takeWhile ?P (wait_list sem) = []")
    case True
    with assms show ?thesis unfolding P by (simp add: prio_aware_insert Let_def)
  next
    case False
    with assms hd_takeWhile_fresh [OF assms(4) False] show ?thesis
      unfolding P by (simp add: prio_aware_insert Let_def hd_append)
  qed
qed

text \<open>
  A witness for C3, scenario A of the design: the list holds one waiter of normal
  priority, the budget is 0, and an elevated waiter is queued. It goes first, the
  budget becomes 1 and the call returns true.
\<close>

theorem prio_insert_scan_witness:
  "wait_list \<lparr>owner = 0, wait_list = [\<lparr>list_node = 64, task = \<lparr>prio = 120\<rparr>\<rparr>],
      m_count = 0\<rparr> \<noteq> []
   \<and> prio (task \<lparr>list_node = 128, task = \<lparr>prio = 100\<rparr>\<rparr>) < 120
   \<and> m_count \<lparr>owner = 0, wait_list = [\<lparr>list_node = 64, task = \<lparr>prio = 120\<rparr>\<rparr>],
        m_count = 0\<rparr> < RWSEM_MAX_PREEMPT_ALLOWED
   \<and> list_node \<lparr>list_node = 128, task = \<lparr>prio = 100\<rparr>\<rparr>
       \<notin> list_node ` set (wait_list \<lparr>owner = 0,
           wait_list = [\<lparr>list_node = 64, task = \<lparr>prio = 120\<rparr>\<rparr>], m_count = 0\<rparr>)
   \<and> rwsem_list_add_per_prio True 120 \<lparr>list_node = 128, task = \<lparr>prio = 100\<rparr>\<rparr>
        \<lparr>owner = 0, wait_list = [\<lparr>list_node = 64, task = \<lparr>prio = 120\<rparr>\<rparr>], m_count = 0\<rparr>
       = (True, \<lparr>owner = 0,
                 wait_list = [\<lparr>list_node = 128, task = \<lparr>prio = 100\<rparr>\<rparr>,
                              \<lparr>list_node = 64, task = \<lparr>prio = 120\<rparr>\<rparr>],
                 m_count = 1\<rparr>)"
proof -
  let ?w = "\<lparr>list_node = 128, task = \<lparr>prio = 100\<rparr>\<rparr>"
  let ?s = "\<lparr>owner = 0, wait_list = [\<lparr>list_node = 64, task = \<lparr>prio = 120\<rparr>\<rparr>], m_count = 0\<rparr>"
  have h1: "wait_list ?s \<noteq> []" by simp
  have h2: "prio (task ?w) < 120" by simp
  have h3: "m_count ?s < RWSEM_MAX_PREEMPT_ALLOWED" by (simp add: RWSEM_MAX_PREEMPT_ALLOWED_def)
  have h4: "list_node ?w \<notin> list_node ` set (wait_list ?s)" by simp
  from prio_insert_scan [OF h1 h2 h3 h4] h1 h2 h3 h4 show ?thesis by simp
qed

text \<open>
  C6. Under the priority-aware policy, inserting any waiter, whatever its priority and
  whatever the current budget, into an empty list makes it the sole entry, resets the
  budget to 0 and returns true.
\<close>

theorem insert_into_empty_list:
  "wait_list sem = [] \<Longrightarrow>
   rwsem_list_add_per_prio True DEFAULT_PRIO waiter_in sem
     = (True, sem\<lparr>wait_list := [waiter_in], m_count := 0\<rparr>)"
  by (simp add: rwsem_list_add_per_prio_def list_empty_def list_add_tail_def)

text \<open>
  A witness for C6: a waiter of priority 130 queued on an empty list whose budget
  stands at 2999.
\<close>

theorem insert_into_empty_list_witness:
  "wait_list \<lparr>owner = 0, wait_list = [], m_count = 2999\<rparr> = [] \<and>
   rwsem_list_add_per_prio True 120 \<lparr>list_node = 64, task = \<lparr>prio = 130\<rparr>\<rparr>
       \<lparr>owner = 0, wait_list = [], m_count = 2999\<rparr>
     = (True, \<lparr>owner = 0, wait_list = [\<lparr>list_node = 64, task = \<lparr>prio = 130\<rparr>\<rparr>],
              m_count = 0\<rparr>)"
  using insert_into_empty_list
    [of "\<lparr>owner = 0, wait_list = [], m_count = 2999\<rparr>" 120
        "\<lparr>list_node = 64, task = \<lparr>prio = 130\<rparr>\<rparr>"]
  by simp

section \<open>The preempt budget\<close>

lemma budget_step_range:
  "0 \<le> m_count sem \<Longrightarrow> m_count sem \<le> RWSEM_MAX_PREEMPT_ALLOWED \<Longrightarrow>
   0 \<le> m_count (snd (rwsem_list_add_per_prio cfg d w sem))
   \<and> m_count (snd (rwsem_list_add_per_prio cfg d w sem)) \<le> RWSEM_MAX_PREEMPT_ALLOWED"
  by (cases cfg) (simp_all add: prio_aware_insert fifo_only_insert RWSEM_MAX_PREEMPT_ALLOWED_def)

lemma budget_range_insert_all:
  "0 \<le> m_count sem \<Longrightarrow> m_count sem \<le> RWSEM_MAX_PREEMPT_ALLOWED \<Longrightarrow>
   0 \<le> m_count (insert_all cfg d ws sem)
   \<and> m_count (insert_all cfg d ws sem) \<le> RWSEM_MAX_PREEMPT_ALLOWED"
proof (induction ws arbitrary: sem)
  case Nil
  then show ?case by simp
next
  case (Cons w ws)
  from budget_step_range [OF Cons.prems, of cfg d w]
  show ?case using Cons.IH by simp
qed

lemma budget_step_reset:
  "wait_list sem = [] \<Longrightarrow> m_count (snd (rwsem_list_add_per_prio True d w sem)) = 0"
  by (simp add: prio_aware_insert)

lemma budget_step_nonempty:
  assumes "wait_list sem \<noteq> []"
  shows "(m_count (snd (rwsem_list_add_per_prio True d w sem)) = m_count sem)
       \<or> (m_count (snd (rwsem_list_add_per_prio True d w sem)) = m_count sem + 1
          \<and> (\<exists>ahead y behind.
                wait_list sem = ahead @ y # behind
                \<and> wait_list (snd (rwsem_list_add_per_prio True d w sem))
                    = ahead @ w # y # behind
                \<and> prio (task w) < prio (task y)))"
proof (cases "prio (task w) < d \<and> m_count sem < RWSEM_MAX_PREEMPT_ALLOWED
                \<and> dropWhile (\<lambda>x. prio (task x) \<le> prio (task w)) (wait_list sem) \<noteq> []")
  case True
  let ?P = "\<lambda>x. prio (task x) \<le> prio (task w)"
  let ?l = "wait_list sem"
  from True have ne: "dropWhile ?P ?l \<noteq> []" by simp
  from dropWhile_split [OF ne]
  have split: "?l = takeWhile ?P ?l @ hd (dropWhile ?P ?l) # tl (dropWhile ?P ?l)"
    and less: "prio (task w) < prio (task (hd (dropWhile ?P ?l)))"
    by (simp_all add: not_le)
  have new: "wait_list (snd (rwsem_list_add_per_prio True d w sem))
      = takeWhile ?P ?l @ w # hd (dropWhile ?P ?l) # tl (dropWhile ?P ?l)"
    using True assms ne by (simp add: prio_aware_insert)
  have cnt: "m_count (snd (rwsem_list_add_per_prio True d w sem)) = m_count sem + 1"
    using True assms by (simp add: prio_aware_insert)
  from split new less cnt show ?thesis by blast
next
  case False
  with assms show ?thesis by (auto simp add: prio_aware_insert)
qed

text \<open>
  C4. Start from a semaphore whose budget lies in \<open>[0, RWSEM_MAX_PREEMPT_ALLOWED]\<close>,
  queue any waiters \<open>ws\<close> under the priority-aware policy and call the state reached
  \<open>s\<close>; let \<open>s'\<close> be the state after one more insertion. Then the budget of \<open>s\<close> lies in
  \<open>[0, RWSEM_MAX_PREEMPT_ALLOWED]\<close>; an insertion into an empty list sets it to 0; an
  insertion into a non-empty list never lowers it, and either leaves it as it was or
  adds 1, the latter only when the new waiter was linked right before an existing
  entry that is strictly less urgent.
\<close>

theorem budget_invariant:
  assumes "0 \<le> m_count sem0" and "m_count sem0 \<le> RWSEM_MAX_PREEMPT_ALLOWED"
  shows "let s = insert_all True d ws sem0;
             s' = snd (rwsem_list_add_per_prio True d w s)
         in 0 \<le> m_count s \<and> m_count s \<le> RWSEM_MAX_PREEMPT_ALLOWED
            \<and> (wait_list s = [] \<longrightarrow> m_count s' = 0)
            \<and> (wait_list s \<noteq> [] \<longrightarrow> m_count s \<le> m_count s')
            \<and> (wait_list s \<noteq> [] \<longrightarrow>
                  m_count s' = m_count s
                  \<or> (m_count s' = m_count s + 1
                     \<and> (\<exists>ahead y behind.
                           wait_list s = ahead @ y # behind
                           \<and> wait_list s' = ahead @ w # y # behind
                           \<and> prio (task w) < prio (task y))))"
proof -
  let ?s = "insert_all True d ws sem0"
  let ?s' = "snd (rwsem_list_add_per_prio True d w ?s)"
  have mono: "m_count ?s \<le> m_count ?s'" if "wait_list ?s \<noteq> []"
    using budget_step_nonempty [OF that, of d w] by linarith
  show ?thesis
    unfolding Let_def
    using budget_range_insert_all [OF assms, of True d ws]
      budget_step_reset [of ?s d w] budget_step_nonempty [of ?s d w] mono
    by blast
qed

text \<open>
  A witness for C4: from an empty list with budget 7, the first insertion resets the
  budget to 0, and the insertion of an elevated waiter ahead of one of normal priority
  raises it from 0 to 1.
\<close>

theorem budget_invariant_witness:
  "0 \<le> m_count \<lparr>owner = 0, wait_list = [], m_count = 7\<rparr>
   \<and> m_count \<lparr>owner = 0, wait_list = [], m_count = 7\<rparr> \<le> RWSEM_MAX_PREEMPT_ALLOWED
   \<and> wait_list (insert_all True 120 [] \<lparr>owner = 0, wait_list = [], m_count = 7\<rparr>) = []
   \<and> m_count (snd (rwsem_list_add_per_prio True 120 \<lparr>list_node = 128, task = \<lparr>prio = 100\<rparr>\<rparr>
         (insert_all True 120 [] \<lparr>owner = 0, wait_list = [], m_count = 7\<rparr>))) = 0
   \<and> wait_list (insert_all True 120 [\<lparr>list_node = 64, task = \<lparr>prio = 120\<rparr>\<rparr>]
         \<lparr>owner = 0, wait_list = [], m_count = 7\<rparr>) \<noteq> []
   \<and> m_count (insert_all True 120 [\<lparr>list_node = 64, task = \<lparr>prio = 120\<rparr>\<rparr>]
         \<lparr>owner = 0, wait_list = [], m_count = 7\<rparr>) = 0
   \<and> m_count (snd (rwsem_list_add_per_prio True 120 \<lparr>list_node = 128, task = \<lparr>prio = 100\<rparr>\<rparr>
         (insert_all True 120 [\<lparr>list_node = 64, task = \<lparr>prio = 120\<rparr>\<rparr>]
            \<lparr>owner = 0, wait_list = [], m_count = 7\<rparr>))) = 1"
proof -
  let ?w = "\<lparr>list_node = 128, task = \<lparr>prio = 100\<rparr>\<rparr>"
  let ?a = "\<lparr>list_node = 64, task = \<lparr>prio = 120\<rparr>\<rparr>"
  let ?s = "\<lparr>owner = 0, wait_list = [], m_count = 7\<rparr>"
  have h1: "0 \<le> m_count ?s" by simp
  have h2: "m_count ?s \<le> RWSEM_MAX_PREEMPT_ALLOWED" by (simp add: RWSEM_MAX_PREEMPT_ALLOWED_def)
  have e: "insert_all True 120 [?a] ?s = \<lparr>owner = 0, wait_list = [?a], m_count = 0\<rparr>"
    by (simp add: eval_defs)
  from budget_invariant [OF h1 h2, of 120 "[]" ?w] budget_invariant [OF h1 h2, of 120 "[?a]" ?w]
    h1 h2 e
  show ?thesis by (simp add: Let_def eval_defs)
qed

section \<open>Urgent waiters and the entries ahead of them\<close>

lemma splice_keeps_ahead:
  assumes ahead: "\<forall>a\<in>set A. prio (task a) \<le> prio (task w)"
  shows "\<exists>A' B'. takeWhile (\<lambda>a. prio (task a) \<le> prio (task x)) (A @ w # B)
                    @ x # dropWhile (\<lambda>a. prio (task a) \<le> prio (task x)) (A @ w # B)
                  = A' @ w # B'
                \<and> (\<forall>a\<in>set A'. prio (task a) \<le> prio (task w))"
proof -
  let ?P = "\<lambda>a. prio (task a) \<le> prio (task x)"
  show ?thesis
  proof (cases "\<forall>a\<in>set A. ?P a")
    case all: True
    then have tw: "takeWhile ?P (A @ w # B) = A @ takeWhile ?P (w # B)"
      and dw: "dropWhile ?P (A @ w # B) = dropWhile ?P (w # B)"
      by (simp_all add: takeWhile_append2 dropWhile_append2)
    show ?thesis
    proof (cases "?P w")
      case True
      with tw dw have "takeWhile ?P (A @ w # B) @ x # dropWhile ?P (A @ w # B)
          = A @ w # (takeWhile ?P B @ x # dropWhile ?P B)" by simp
      with ahead show ?thesis by blast
    next
      case False
      with tw dw have "takeWhile ?P (A @ w # B) @ x # dropWhile ?P (A @ w # B)
          = (A @ [x]) @ w # B" by simp
      moreover from False ahead have "\<forall>a\<in>set (A @ [x]). prio (task a) \<le> prio (task w)"
        by auto
      ultimately show ?thesis by blast
    qed
  next
    case False
    then obtain a where a: "a \<in> set A" "\<not> ?P a" by blast
    then have tw: "takeWhile ?P (A @ w # B) = takeWhile ?P A"
      and dw: "dropWhile ?P (A @ w # B) = dropWhile ?P A @ w # B"
      by (simp_all add: takeWhile_append1 dropWhile_append1)
    have eq: "takeWhile ?P (A @ w # B) @ x # dropWhile ?P (A @ w # B)
          = (takeWhile ?P A @ x # dropWhile ?P A) @ w # B"
      using tw dw by simp
    from a ahead have "prio (task x) \<le> prio (task w)" by force
    moreover have "set (takeWhile ?P A) \<subseteq> set A" "set (dropWhile ?P A) \<subseteq> set A"
      by (auto dest: set_takeWhileD set_dropWhileD)
    ultimately have "\<forall>a\<in>set (takeWhile ?P A @ x # dropWhile ?P A).
        prio (task a) \<le> prio (task w)"
      using ahead by auto
    with eq show ?thesis by blast
  qed
qed

lemma insert_keeps_ahead:
  assumes l: "wait_list sem = A @ w # B"
    and ahead: "\<forall>a\<in>set A. prio (task a) \<le> prio (task w)"
  shows "\<exists>A' B'. wait_list (snd (rwsem_list_add_per_prio cfg d x sem)) = A' @ w # B'
                \<and> (\<forall>a\<in>set A'. prio (task a) \<le> prio (task w))"
proof (cases cfg)
  case False
  then have "wait_list (snd (rwsem_list_add_per_prio cfg d x sem)) = A @ w # (B @ [x])"
    using l by (simp add: fifo_only_insert)
  with ahead show ?thesis by blast
next
  case True
  show ?thesis
  proof (cases "prio (task x) < d \<and> m_count sem < RWSEM_MAX_PREEMPT_ALLOWED
                  \<and> dropWhile (\<lambda>a. prio (task a) \<le> prio (task x)) (wait_list sem) \<noteq> []")
    case scan: True
    with True l have "wait_list (snd (rwsem_list_add_per_prio cfg d x sem))
        = takeWhile (\<lambda>a. prio (task a) \<le> prio (task x)) (A @ w # B)
            @ x # dropWhile (\<lambda>a. prio (task a) \<le> prio (task x)) (A @ w # B)"
      by (simp add: prio_aware_insert)
    with splice_keeps_ahead [OF ahead, of x B] show ?thesis by simp
  next
    case False
    with True l have "wait_list (snd (rwsem_list_add_per_prio cfg d x sem))
        = A @ w # (B @ [x])"
      by (auto simp add: prio_aware_insert)
    with ahead show ?thesis by blast
  qed
qed

lemma insert_all_keeps_ahead:
  assumes "wait_list sem = A @ w # B"
    and "\<forall>a\<in>set A. prio (task a) \<le> prio (task w)"
  shows "\<exists>A' B'. wait_list (insert_all cfg d ws sem) = A' @ w # B'
                \<and> (\<forall>a\<in>set A'. prio (task a) \<le> prio (task w))"
  using assms
proof (induction ws arbitrary: sem A B)
  case Nil
  then show ?case by auto
next
  case (Cons x ws)
  from insert_keeps_ahead [OF Cons.prems, of cfg d x]
  obtain A' B' where "wait_list (snd (rwsem_list_add_per_prio cfg d x sem)) = A' @ w # B'"
    and "\<forall>a\<in>set A'. prio (task a) \<le> prio (task w)" by blast
  from Cons.IH [OF this] show ?case by simp
qed

lemma elevated_insert_ahead:
  assumes "prio (task w) < d" and "m_count sem < RWSEM_MAX_PREEMPT_ALLOWED"
  shows "\<exists>A B. wait_list (snd (rwsem_list_add_per_prio True d w sem)) = A @ w # B
              \<and> (\<forall>a\<in>set A. prio (task a) \<le> prio (task w))"
proof (cases "wait_list sem = []")
  case True
  then have "wait_list (snd (rwsem_list_add_per_prio True d w sem)) = [] @ w # []"
    by (simp add: prio_aware_insert)
  then show ?thesis by fastforce
next
  case ne: False
  let ?P = "\<lambda>a. prio (task a) \<le> prio (task w)"
  show ?thesis
  proof (cases "dropWhile ?P (wait_list sem) = []")
    case True
    then have all: "\<forall>a\<in>set (wait_list sem). ?P a" by (simp add: dropWhile_eq_Nil_conv)
    from True ne have "wait_list (snd (rwsem_list_add_per_prio True d w sem))
        = wait_list sem @ w # []"
      by (simp add: prio_aware_insert)
    with all show ?thesis by blast
  next
    case False
    with ne assms have "wait_list (snd (rwsem_list_add_per_prio True d w sem))
        = takeWhile ?P (wait_list sem) @ w # dropWhile ?P (wait_list sem)"
      by (simp add: prio_aware_insert)
    moreover have "\<forall>a\<in>set (takeWhile ?P (wait_list sem)). ?P a"
      by (auto dest: set_takeWhileD)
    ultimately show ?thesis by blast
  qed
qed

lemma normal_insert_tail:
  assumes "DEFAULT_PRIO \<le> prio (task v)"
  shows "rwsem_list_add_per_prio True DEFAULT_PRIO v s
         = (wait_list s = [],
            s\<lparr>wait_list := wait_list s @ [v],
              m_count := (if wait_list s = [] then 0 else m_count s)\<rparr>)"
proof (cases "wait_list s = []")
  case True
  then show ?thesis by (simp add: prio_aware_insert)
next
  case False
  from assms have "\<not> (prio (task v) < DEFAULT_PRIO \<and> m_count s < RWSEM_MAX_PREEMPT_ALLOWED
      \<and> dropWhile (\<lambda>x. prio (task x) \<le> prio (task v)) (wait_list s) \<noteq> [])"
    by simp
  from prio_aware_tail [OF False this] False show ?thesis by simp
qed

text \<open>
  C5, as amended. Under the priority-aware policy, a waiter \<open>w\<close> that is strictly more
  urgent than \<open>DEFAULT_PRIO\<close> and is queued while the budget is below the cap never has
  a less urgent waiter ahead of it in the wait list: not right after its own insertion
  and not after any further insertions \<open>ws\<close>. A waiter \<open>v\<close> that is not more urgent
  than \<open>DEFAULT_PRIO\<close> is appended at the tail of the list, whatever the priorities of
  the entries already queued and whatever the budget; the call returns true only on
  an empty list, and the budget is reset on an empty list and untouched otherwise.
\<close>

theorem elevated_waiter_never_behind_less_urgent:
  "(prio (task w) < DEFAULT_PRIO \<and> m_count sem < RWSEM_MAX_PREEMPT_ALLOWED \<longrightarrow>
      (\<exists>ahead behind.
         wait_list (insert_all True DEFAULT_PRIO ws
                      (snd (rwsem_list_add_per_prio True DEFAULT_PRIO w sem)))
           = ahead @ w # behind
         \<and> (\<forall>a\<in>set ahead. prio (task a) \<le> prio (task w))))
   \<and> (DEFAULT_PRIO \<le> prio (task v) \<longrightarrow>
        rwsem_list_add_per_prio True DEFAULT_PRIO v s
          = (wait_list s = [],
             s\<lparr>wait_list := wait_list s @ [v],
               m_count := (if wait_list s = [] then 0 else m_count s)\<rparr>))"
proof (intro conjI impI)
  assume elev: "prio (task w) < DEFAULT_PRIO \<and> m_count sem < RWSEM_MAX_PREEMPT_ALLOWED"
  then have "prio (task w) < DEFAULT_PRIO" and "m_count sem < RWSEM_MAX_PREEMPT_ALLOWED"
    by simp_all
  from elevated_insert_ahead [OF this]
  obtain A B where "wait_list (snd (rwsem_list_add_per_prio True DEFAULT_PRIO w sem)) = A @ w # B"
    and "\<forall>a\<in>set A. prio (task a) \<le> prio (task w)" by blast
  from insert_all_keeps_ahead [OF this]
  show "\<exists>ahead behind.
         wait_list (insert_all True DEFAULT_PRIO ws
                      (snd (rwsem_list_add_per_prio True DEFAULT_PRIO w sem)))
           = ahead @ w # behind
         \<and> (\<forall>a\<in>set ahead. prio (task a) \<le> prio (task w))" .
next
  assume "DEFAULT_PRIO \<le> prio (task v)"
  then show "rwsem_list_add_per_prio True DEFAULT_PRIO v s
          = (wait_list s = [],
             s\<lparr>wait_list := wait_list s @ [v],
               m_count := (if wait_list s = [] then 0 else m_count s)\<rparr>)"
    by (rule normal_insert_tail)
qed

text \<open>
  A witness for C5. A waiter of priority 100 is queued on a list of priorities 90 and
  130 with budget 1, followed by a waiter of priority 95: the list ends as 90, 95,
  100, 130. A waiter of priority 125 is queued on a list holding one waiter of
  priority 130 with budget 0: it goes to the tail, the call returns false and the
  budget stays 0.
\<close>

theorem elevated_waiter_never_behind_less_urgent_witness:
  "prio (task \<lparr>list_node = 192, task = \<lparr>prio = 100\<rparr>\<rparr>) < 120
   \<and> m_count \<lparr>owner = 0, wait_list = [\<lparr>list_node = 64, task = \<lparr>prio = 90\<rparr>\<rparr>,
                                        \<lparr>list_node = 128, task = \<lparr>prio = 130\<rparr>\<rparr>],
        m_count = 1\<rparr> < RWSEM_MAX_PREEMPT_ALLOWED
   \<and> (\<exists>ahead behind.
         wait_list (insert_all True 120 [\<lparr>list_node = 256, task = \<lparr>prio = 95\<rparr>\<rparr>]
            (snd (rwsem_list_add_per_prio True 120 \<lparr>list_node = 192, task = \<lparr>prio = 100\<rparr>\<rparr>
               \<lparr>owner = 0, wait_list = [\<lparr>list_node = 64, task = \<lparr>prio = 90\<rparr>\<rparr>,
                                          \<lparr>list_node = 128, task = \<lparr>prio = 130\<rparr>\<rparr>],
                  m_count = 1\<rparr>)))
           = ahead @ \<lparr>list_node = 192, task = \<lparr>prio = 100\<rparr>\<rparr> # behind
         \<and> (\<forall>a\<in>set ahead. prio (task a)
                \<le> prio (task \<lparr>list_node = 192, task = \<lparr>prio = 100\<rparr>\<rparr>)))
   \<and> wait_list (insert_all True 120 [\<lparr>list_node = 256, task = \<lparr>prio = 95\<rparr>\<rparr>]
        (snd (rwsem_list_add_per_prio True 120 \<lparr>list_node = 192, task = \<lparr>prio = 100\<rparr>\<rparr>
           \<lparr>owner = 0, wait_list = [\<lparr>list_node = 64, task = \<lparr>prio = 90\<rparr>\<rparr>,
                                      \<lparr>list_node = 128, task = \<lparr>prio = 130\<rparr>\<rparr>],
              m_count = 1\<rparr>)))
       = [\<lparr>list_node = 64, task = \<lparr>prio = 90\<rparr>\<rparr>, \<lparr>list_node = 256, task = \<lparr>prio = 95\<rparr>\<rparr>,
          \<lparr>list_node = 192, task = \<lparr>prio = 100\<rparr>\<rparr>, \<lparr>list_node = 128, task = \<lparr>prio = 130\<rparr>\<rparr>]
   \<and> (120 :: int) \<le> prio (task \<lparr>list_node = 320, task = \<lparr>prio = 125\<rparr>\<rparr>)
   \<and> rwsem_list_add_per_prio True 120 \<lparr>list_node = 320, task = \<lparr>prio = 125\<rparr>\<rparr>
        \<lparr>owner = 0, wait_list = [\<lparr>list_node = 64, task = \<lparr>prio = 130\<rparr>\<rparr>], m_count = 0\<rparr>
       = (False, \<lparr>owner = 0,
                  wait_list = [\<lparr>list_node = 64, task = \<lparr>prio = 130\<rparr>\<rparr>,
                               \<lparr>list_node = 320, task = \<lparr>prio = 125\<rparr>\<rparr>],
                  m_count = 0\<rparr>)"
proof -
  let ?w = "\<lparr>list_node = 192, task = \<lparr>prio = 100\<rparr>\<rparr>"
  let ?s = "\<lparr>owner = 0, wait_list = [\<lparr>list_node = 64, task = \<lparr>prio = 90\<rparr>\<rparr>,
                                        \<lparr>list_node = 128, task = \<lparr>prio = 130\<rparr>\<rparr>],
        m_count = 1\<rparr>"
  let ?v = "\<lparr>list_node = 320, task = \<lparr>prio = 125\<rparr>\<rparr>"
  let ?t = "\<lparr>owner = 0, wait_list = [\<lparr>list_node = 64, task = \<lparr>prio = 130\<rparr>\<rparr>], m_count = 0\<rparr>"
  have h1: "prio (task ?w) < 120" by simp
  have h2: "m_count ?s < RWSEM_MAX_PREEMPT_ALLOWED" by (simp add: RWSEM_MAX_PREEMPT_ALLOWED_def)
  have h3: "(120 :: int) \<le> prio (task ?v)" by simp
  have e: "wait_list (insert_all True 120 [\<lparr>list_node = 256, task = \<lparr>prio = 95\<rparr>\<rparr>]
        (snd (rwsem_list_add_per_prio True 120 ?w ?s)))
       = [\<lparr>list_node = 64, task = \<lparr>prio = 90\<rparr>\<rparr>, \<lparr>list_node = 256, task = \<lparr>prio = 95\<rparr>\<rparr>,
          \<lparr>list_node = 192, task = \<lparr>prio = 100\<rparr>\<rparr>, \<lparr>list_node = 128, task = \<lparr>prio = 130\<rparr>\<rparr>]"
    by (simp add: eval_defs)
  note inst = elevated_waiter_never_behind_less_urgent
    [where w = ?w and sem = ?s and DEFAULT_PRIO = 120
       and ws = "[\<lparr>list_node = 256, task = \<lparr>prio = 95\<rparr>\<rparr>]" and v = ?v and s = ?t]
  from inst h1 h2 have ahead: "\<exists>ahead behind.
         wait_list (insert_all True 120 [\<lparr>list_node = 256, task = \<lparr>prio = 95\<rparr>\<rparr>]
            (snd (rwsem_list_add_per_prio True 120 ?w ?s)))
           = ahead @ ?w # behind
         \<and> (\<forall>a\<in>set ahead. prio (task a) \<le> prio (task ?w))"
    by blast
  from inst h3 have tail: "rwsem_list_add_per_prio True 120 ?v ?t
       = (False, \<lparr>owner = 0,
                  wait_list = [\<lparr>list_node = 64, task = \<lparr>prio = 130\<rparr>\<rparr>, ?v],
                  m_count = 0\<rparr>)"
    by simp
  from h1 h2 h3 e ahead tail show ?thesis by blast
qed

text \<open>
  C5 as stated fails for a waiter that is not more urgent than \<open>DEFAULT_PRIO\<close> (120 in
  the scheduler). Queued on an empty list, a waiter of priority 130 and then one of
  priority 125 end in that order: the less urgent one is ahead, and the budget was 0,
  below the cap, when the second was queued.
\<close>

theorem normal_waiter_behind_less_urgent:
  "insert_all True 120 [\<lparr>list_node = 64, task = \<lparr>prio = 130\<rparr>\<rparr>,
                        \<lparr>list_node = 128, task = \<lparr>prio = 125\<rparr>\<rparr>]
      \<lparr>owner = 0, wait_list = [], m_count = 0\<rparr>
   = \<lparr>owner = 0, wait_list = [\<lparr>list_node = 64, task = \<lparr>prio = 130\<rparr>\<rparr>,
                               \<lparr>list_node = 128, task = \<lparr>prio = 125\<rparr>\<rparr>], m_count = 0\<rparr>
   \<and> prio (task \<lparr>list_node = 128, task = \<lparr>prio = 125\<rparr>\<rparr>)
       < prio (task \<lparr>list_node = 64, task = \<lparr>prio = 130\<rparr>\<rparr>)
   \<and> m_count (insert_all True 120 [\<lparr>list_node = 64, task = \<lparr>prio = 130\<rparr>\<rparr>]
        \<lparr>owner = 0, wait_list = [], m_count = 0\<rparr>) < RWSEM_MAX_PREEMPT_ALLOWED"
  by (simp add: eval_defs)

section \<open>Arrival order within a priority\<close>

lemma elevated_sorted_append:
  "elevated_sorted d (xs @ ys) \<longleftrightarrow>
     elevated_sorted d xs \<and> elevated_sorted d ys
     \<and> (\<forall>a\<in>set xs. \<forall>e\<in>set ys. prio (task e) < d \<longrightarrow> prio (task a) \<le> prio (task e))"
  by (induction xs) auto

lemma scan_behind_less_urgent:
  assumes es: "elevated_sorted d l"
    and ne: "dropWhile (\<lambda>x. prio (task x) \<le> prio (task w)) l \<noteq> []"
  shows "\<forall>e\<in>set (dropWhile (\<lambda>x. prio (task x) \<le> prio (task w)) l).
           prio (task e) < d \<longrightarrow> prio (task w) < prio (task e)"
proof -
  let ?P = "\<lambda>x. prio (task x) \<le> prio (task w)"
  obtain y R' where R: "dropWhile ?P l = y # R'" using ne by (cases "dropWhile ?P l") auto
  have y: "prio (task w) < prio (task y)"
    using hd_dropWhile [OF ne] R by (simp add: not_le)
  have "l = takeWhile ?P l @ y # R'" using R takeWhile_dropWhile_id [of ?P l] by simp
  with es have "elevated_sorted d (takeWhile ?P l @ y # R')" by simp
  then have "elevated_sorted d (y # R')" by (simp add: elevated_sorted_append)
  then have "\<forall>e\<in>set R'. prio (task e) < d \<longrightarrow> prio (task y) \<le> prio (task e)" by simp
  with y have "\<forall>e\<in>set (y # R'). prio (task e) < d \<longrightarrow> prio (task w) < prio (task e)"
    by auto
  with R show ?thesis by simp
qed

lemma scan_step_sorted:
  assumes es: "elevated_sorted d l"
    and ne: "dropWhile (\<lambda>x. prio (task x) \<le> prio (task w)) l \<noteq> []"
  shows "elevated_sorted d (takeWhile (\<lambda>x. prio (task x) \<le> prio (task w)) l
                             @ w # dropWhile (\<lambda>x. prio (task x) \<le> prio (task w)) l)"
proof -
  let ?P = "\<lambda>x. prio (task x) \<le> prio (task w)"
  let ?T = "takeWhile ?P l"
  let ?R = "dropWhile ?P l"
  have T: "\<forall>a\<in>set ?T. prio (task a) \<le> prio (task w)" by (auto dest: set_takeWhileD)
  from es have "elevated_sorted d (?T @ ?R)" by simp
  then have "elevated_sorted d ?T \<and> elevated_sorted d ?R
      \<and> (\<forall>a\<in>set ?T. \<forall>e\<in>set ?R. prio (task e) < d \<longrightarrow> prio (task a) \<le> prio (task e))"
    by (rule iffD1 [OF elevated_sorted_append])
  then have parts: "elevated_sorted d ?T" "elevated_sorted d ?R"
    "\<forall>a\<in>set ?T. \<forall>e\<in>set ?R. prio (task e) < d \<longrightarrow> prio (task a) \<le> prio (task e)"
    by blast+
  from scan_behind_less_urgent [OF es ne]
  have wR: "\<forall>e\<in>set ?R. prio (task e) < d \<longrightarrow> prio (task w) \<le> prio (task e)" by auto
  have "elevated_sorted d (w # ?R)"
    unfolding elevated_sorted.simps using parts(2) wR by blast
  moreover have "\<forall>a\<in>set ?T. \<forall>e\<in>set (w # ?R).
      prio (task e) < d \<longrightarrow> prio (task a) \<le> prio (task e)"
    unfolding set_simps using T parts(3) by blast
  ultimately have "elevated_sorted d ?T \<and> elevated_sorted d (w # ?R)
      \<and> (\<forall>a\<in>set ?T. \<forall>e\<in>set (w # ?R).
            prio (task e) < d \<longrightarrow> prio (task a) \<le> prio (task e))"
    using parts(1) by blast
  then show ?thesis by (rule iffD2 [OF elevated_sorted_append])
qed

lemma scan_step_filter:
  assumes es: "elevated_sorted d l"
    and elev: "prio (task w) < d"
    and ne: "dropWhile (\<lambda>x. prio (task x) \<le> prio (task w)) l \<noteq> []"
  shows "filter (\<lambda>x. prio (task x) = p)
           (takeWhile (\<lambda>x. prio (task x) \<le> prio (task w)) l
              @ w # dropWhile (\<lambda>x. prio (task x) \<le> prio (task w)) l)
         = filter (\<lambda>x. prio (task x) = p) l @ filter (\<lambda>x. prio (task x) = p) [w]"
proof -
  let ?P = "\<lambda>x. prio (task x) \<le> prio (task w)"
  let ?T = "takeWhile ?P l"
  let ?R = "dropWhile ?P l"
  let ?f = "filter (\<lambda>x. prio (task x) = p)"
  have split: "?f l = ?f ?T @ ?f ?R"
    using takeWhile_dropWhile_id [of ?P l] filter_append [of _ ?T ?R] by simp
  show ?thesis
  proof (cases "p = prio (task w)")
    case True
    from scan_behind_less_urgent [OF es ne] elev
    have "\<forall>e\<in>set ?R. prio (task e) \<noteq> p" unfolding True by auto
    then have "?f ?R = []" by (simp add: filter_empty_conv)
    with split True show ?thesis by simp
  next
    case False
    with split show ?thesis by simp
  qed
qed

lemma prio_aware_step_stable:
  assumes J: "m_count sem < RWSEM_MAX_PREEMPT_ALLOWED \<longrightarrow> elevated_sorted d (wait_list sem)"
  shows "(m_count (snd (rwsem_list_add_per_prio True d w sem)) < RWSEM_MAX_PREEMPT_ALLOWED
            \<longrightarrow> elevated_sorted d (wait_list (snd (rwsem_list_add_per_prio True d w sem))))
       \<and> filter (\<lambda>x. prio (task x) = p) (wait_list (snd (rwsem_list_add_per_prio True d w sem)))
           = filter (\<lambda>x. prio (task x) = p) (wait_list sem)
               @ filter (\<lambda>x. prio (task x) = p) [w]"
proof (cases "wait_list sem = []")
  case True
  then show ?thesis by (simp add: prio_aware_insert)
next
  case ne: False
  let ?P = "\<lambda>x. prio (task x) \<le> prio (task w)"
  show ?thesis
  proof (cases "prio (task w) < d \<and> m_count sem < RWSEM_MAX_PREEMPT_ALLOWED
                  \<and> dropWhile ?P (wait_list sem) \<noteq> []")
    case scan: True
    with J have es: "elevated_sorted d (wait_list sem)" by simp
    from scan have elev: "prio (task w) < d" and m: "m_count sem < RWSEM_MAX_PREEMPT_ALLOWED"
      and found: "dropWhile ?P (wait_list sem) \<noteq> []" by simp_all
    from scan_step_sorted [OF es found] scan_step_filter [OF es elev found, of p]
    show ?thesis by (simp add: prio_aware_splice [OF ne elev m found])
  next
    case tail: False
    have res: "snd (rwsem_list_add_per_prio True d w sem) = sem\<lparr>wait_list := wait_list sem @ [w]\<rparr>"
      by (simp add: prio_aware_tail [OF ne tail])
    have "elevated_sorted d (wait_list sem @ [w])" if m: "m_count sem < RWSEM_MAX_PREEMPT_ALLOWED"
    proof -
      from J m have es: "elevated_sorted d (wait_list sem)" by simp
      from tail m have "prio (task w) < d \<longrightarrow> (\<forall>a\<in>set (wait_list sem). ?P a)"
        by (auto simp add: dropWhile_eq_Nil_conv)
      with es show ?thesis by (simp add: elevated_sorted_append)
    qed
    then show ?thesis by (simp add: res)
  qed
qed

lemma prio_aware_insert_all_stable:
  assumes "m_count sem < RWSEM_MAX_PREEMPT_ALLOWED \<longrightarrow> elevated_sorted d (wait_list sem)"
  shows "filter (\<lambda>x. prio (task x) = p) (wait_list (insert_all True d ws sem))
           = filter (\<lambda>x. prio (task x) = p) (wait_list sem)
               @ filter (\<lambda>x. prio (task x) = p) ws"
  using assms
proof (induction ws arbitrary: sem)
  case Nil
  show ?case by simp
next
  case (Cons w ws)
  from prio_aware_step_stable [OF Cons.prems, of w p]
  have J': "m_count (snd (rwsem_list_add_per_prio True d w sem)) < RWSEM_MAX_PREEMPT_ALLOWED
            \<longrightarrow> elevated_sorted d (wait_list (snd (rwsem_list_add_per_prio True d w sem)))"
    and f: "filter (\<lambda>x. prio (task x) = p)
              (wait_list (snd (rwsem_list_add_per_prio True d w sem)))
            = filter (\<lambda>x. prio (task x) = p) (wait_list sem)
                @ filter (\<lambda>x. prio (task x) = p) [w]"
    by simp_all
  from Cons.IH [OF J'] f show ?case by simp
qed

text \<open>
  C7. Queue any waiters \<open>ws\<close>, in this order, on an empty list, under either policy.
  For every priority \<open>p\<close> the entries of priority \<open>p\<close> stand in the final list in the
  order in which they arrived.
\<close>

theorem equal_priority_arrival_order:
  assumes "wait_list sem = []"
  shows "filter (\<lambda>x. prio (task x) = p) (wait_list (insert_all cfg DEFAULT_PRIO ws sem))
           = filter (\<lambda>x. prio (task x) = p) ws"
proof (cases cfg)
  case True
  from assms have "m_count sem < RWSEM_MAX_PREEMPT_ALLOWED
      \<longrightarrow> elevated_sorted DEFAULT_PRIO (wait_list sem)" by simp
  from prio_aware_insert_all_stable [OF this, of p ws] True assms show ?thesis by simp
next
  case False
  with assms show ?thesis by (simp add: fifo_insert_all)
qed

text \<open>
  A witness for C7: priorities 130, 100, 130, 100 arrive in this order under the
  priority-aware policy. The list ends as 100, 100, 130, 130 with each pair in
  arrival order.
\<close>

theorem equal_priority_arrival_order_witness:
  "wait_list \<lparr>owner = 0, wait_list = [], m_count = 5\<rparr> = []
   \<and> filter (\<lambda>x. prio (task x) = 100)
       (wait_list (insert_all True 120
          [\<lparr>list_node = 64, task = \<lparr>prio = 130\<rparr>\<rparr>, \<lparr>list_node = 128, task = \<lparr>prio = 100\<rparr>\<rparr>,
           \<lparr>list_node = 192, task = \<lparr>prio = 130\<rparr>\<rparr>, \<lparr>list_node = 256, task = \<lparr>prio = 100\<rparr>\<rparr>]
          \<lparr>owner = 0, wait_list = [], m_count = 5\<rparr>))
     = [\<lparr>list_node = 128, task = \<lparr>prio = 100\<rparr>\<rparr>, \<lparr>list_node = 256, task = \<lparr>prio = 100\<rparr>\<rparr>]
   \<and> wait_list (insert_all True 120
          [\<lparr>list_node = 64, task = \<lparr>prio = 130\<rparr>\<rparr>, \<lparr>list_node = 128, task = \<lparr>prio = 100\<rparr>\<rparr>,
           \<lparr>list_node = 192, task = \<lparr>prio = 130\<rparr>\<rparr>, \<lparr>list_node = 256, task = \<lparr>prio = 100\<rparr>\<rparr>]
          \<lparr>owner = 0, wait_list = [], m_count = 5\<rparr>)
     = [\<lparr>list_node = 128, task = \<lparr>prio = 100\<rparr>\<rparr>, \<lparr>list_node = 256, task = \<lparr>prio = 100\<rparr>\<rparr>,
        \<lparr>list_node = 64, task = \<lparr>prio = 130\<rparr>\<rparr>, \<lparr>list_node = 192, task = \<lparr>prio = 130\<rparr>\<rparr>]"
proof -
  let ?s = "\<lparr>owner = 0, wait_list = [], m_count = 5\<rparr>"
  have h: "wait_list ?s = []" by simp
  have e: "wait_list (insert_all True 120
          [\<lparr>list_node = 64, task = \<lparr>prio = 130\<rparr>\<rparr>, \<lparr>list_node = 128, task = \<lparr>prio = 100\<rparr>\<rparr>,
           \<lparr>list_node = 192, task = \<lparr>prio = 130\<rparr>\<rparr>, \<lparr>list_node = 256, task = \<lparr>prio = 100\<rparr>\<rparr>] ?s)
     = [\<lparr>list_node = 128, task = \<lparr>prio = 100\<rparr>\<rparr>, \<lparr>list_node = 256, task = \<lparr>prio = 100\<rparr>\<rparr>,
        \<lparr>list_node = 64, task = \<lparr>prio = 130\<rparr>\<rparr>, \<lparr>list_node = 192, task = \<lparr>prio = 130\<rparr>\<rparr>]"
    by (simp add: eval_defs)
  from equal_priority_arrival_order [OF h, of 100 True 120
      "[\<lparr>list_node = 64, task = \<lparr>prio = 130\<rparr>\<rparr>, \<lparr>list_node = 128, task = \<lparr>prio = 100\<rparr>\<rparr>,
        \<lparr>list_node = 192, task = \<lparr>prio = 130\<rparr>\<rparr>, \<lparr>list_node = 256, task = \<lparr>prio = 100\<rparr>\<rparr>]"]
    h e
  show ?thesis by simp
qed

section \<open>The owner word\<close>

text \<open>
  C8. Let the mask \<open>anon\<close> be disjoint from every task pointer and let the value that
  marks reader ownership have a bit of the mask. Then \<open>is_rwsem_owner_spinnable\<close> is
  true for the owner a cleared semaphore holds (free), true for the owner
  \<open>rwsem_set_owner\<close> publishes (owned by the task \<open>current\<close>), and false for the owner
  \<open>rwsem_set_reader_owned\<close> publishes (anonymous).
\<close>

theorem owner_spinnable_values:
  assumes "current AND anon = 0" and "reader_owned AND anon \<noteq> 0"
  shows "is_rwsem_owner_spinnable anon (owner (fst (rwsem_clear_owner True sem)))
       \<and> is_rwsem_owner_spinnable anon (owner (fst (rwsem_set_owner True current sem)))
       \<and> \<not> is_rwsem_owner_spinnable anon
             (owner (fst (rwsem_set_reader_owned True reader_owned sem)))"
  using assms
  by (simp add: is_rwsem_owner_spinnable_def rwsem_clear_owner_def rwsem_set_owner_def
      rwsem_set_reader_owned_def)

text \<open>
  A witness for C8, with bit 0 as the mask and as the reader-owned value, and an
  aligned kernel address as the task pointer.
\<close>

theorem owner_spinnable_values_witness:
  "(0xFFFF800012345680 :: 64 word) AND 1 = 0 \<and> (1 :: 64 word) AND 1 \<noteq> 0
   \<and> is_rwsem_owner_spinnable 1
       (owner (fst (rwsem_clear_owner True \<lparr>owner = 1, wait_list = [], m_count = 0\<rparr>)))
   \<and> is_rwsem_owner_spinnable 1
       (owner (fst (rwsem_set_owner True 0xFFFF800012345680
                      \<lparr>owner = 1, wait_list = [], m_count = 0\<rparr>)))
   \<and> \<not> is_rwsem_owner_spinnable 1
       (owner (fst (rwsem_set_reader_owned True 1
                      \<lparr>owner = 0, wait_list = [], m_count = 0\<rparr>)))"
proof -
  have a: "(0xFFFF800012345680 :: 64 word) AND 1 = 0" by simp
  have b: "(1 :: 64 word) AND 1 \<noteq> 0" by simp
  from owner_spinnable_values [OF a b, of "\<lparr>owner = 1, wait_list = [], m_count = 0\<rparr>"]
    owner_spinnable_values [OF a b, of "\<lparr>owner = 0, wait_list = [], m_count = 0\<rparr>"] a b
  show ?thesis by (simp add: rwsem_clear_owner_def rwsem_set_owner_def)
qed

lemma set_reader_owned_result:
  "owner (fst (rwsem_set_reader_owned c r sem)) = r \<or> \<not> c"
  by (simp add: rwsem_set_reader_owned_def)

lemma stores_append: "stores (t1 @ t2) = stores t1 + stores t2"
  by (induction t1 rule: stores.induct) simp_all

lemma set_reader_owned_n_Suc:
  "snd (set_reader_owned_n c r (Suc n) sem)
   = snd (rwsem_set_reader_owned c r sem)
       @ snd (set_reader_owned_n c r n (fst (rwsem_set_reader_owned c r sem)))"
  by (simp add: case_prod_unfold Let_def)

lemma set_reader_owned_n_settled:
  "owner sem = r \<or> \<not> c \<Longrightarrow> stores (snd (set_reader_owned_n c r n sem)) = 0"
proof (induction n arbitrary: sem)
  case 0
  show ?case by simp
next
  case (Suc n)
  then have one: "rwsem_set_reader_owned c r sem = (sem, if c then [READ_ONCE] else [])"
    by (auto simp add: rwsem_set_reader_owned_def)
  from Suc.IH [OF Suc.prems] show ?case
    by (simp only: set_reader_owned_n_Suc one stores_append fst_conv snd_conv) simp
qed

lemma set_reader_owned_n_stores:
  "stores (snd (set_reader_owned_n c r n sem)) \<le> 1"
proof (cases n)
  case 0
  then show ?thesis by simp
next
  case (Suc k)
  obtain s1 t1 where one: "rwsem_set_reader_owned c r sem = (s1, t1)" by fastforce
  have "owner s1 = r \<or> \<not> c" using set_reader_owned_result [of c r sem] one by simp
  from set_reader_owned_n_settled [OF this, of k]
  have rest: "stores (snd (set_reader_owned_n c r k s1)) = 0" .
  have "stores t1 \<le> 1" using one
    by (auto simp add: rwsem_set_reader_owned_def split: if_splits)
  with rest show ?thesis
    by (simp only: Suc set_reader_owned_n_Suc one stores_append fst_conv snd_conv)
qed

text \<open>
  C9. When the owner word already holds the reader-owned value,
  \<open>rwsem_set_reader_owned\<close> stores nothing and returns the semaphore as it was. Hence
  \<open>n\<close> calls in a row, from any state, make at most one store.
\<close>

theorem set_reader_owned_store_elided:
  "(owner sem = reader_owned \<longrightarrow>
      fst (rwsem_set_reader_owned c reader_owned sem) = sem
      \<and> stores (snd (rwsem_set_reader_owned c reader_owned sem)) = 0)
   \<and> stores (snd (set_reader_owned_n c reader_owned n sem')) \<le> 1"
  using set_reader_owned_n_stores [of c reader_owned n sem']
  by (simp add: rwsem_set_reader_owned_def)

text \<open>
  A witness for C9: a call on a semaphore that is reader-owned already, and three calls
  on a semaphore owned by a task.
\<close>

theorem set_reader_owned_store_elided_witness:
  "owner \<lparr>owner = 1, wait_list = [], m_count = 0\<rparr> = (1 :: 64 word)
   \<and> fst (rwsem_set_reader_owned True 1 \<lparr>owner = 1, wait_list = [], m_count = 0\<rparr>)
       = \<lparr>owner = 1, wait_list = [], m_count = 0\<rparr>
   \<and> stores (snd (rwsem_set_reader_owned True 1 \<lparr>owner = 1, wait_list = [], m_count = 0\<rparr>)) = 0
   \<and> stores (snd (set_reader_owned_n True 1 3
                     \<lparr>owner = 0xFFFF800012345680, wait_list = [], m_count = 0\<rparr>)) \<le> 1"
  using set_reader_owned_store_elided
    [of "\<lparr>owner = 1, wait_list = [], m_count = 0\<rparr>" 1 True 3
        "\<lparr>owner = 0xFFFF800012345680, wait_list = [], m_count = 0\<rparr>"]
  by simp

end
